theory Spec2Isabelle
  imports Complex_Main
begin

section \<open>Strings as sequences of code points\<close>

text \<open>
  The script \<^verbatim>\<open>generate_srt.py\<close> works on Python \<^verbatim>\<open>str\<close> values: sequences of
  Unicode code points, indexed and counted by code point. The delimiter set mixes ASCII
  and full-width punctuation, so a character is modelled by its code point (a natural
  number) and a string by the list of its code points.
\<close>

type_synonym pychar = nat
type_synonym pystr = "pychar list"

definition of_ascii :: "string \<Rightarrow> pystr" where
  "of_ascii s = map of_char s"

text \<open>
  \<^verbatim>\<open>str.strip()\<close> without argument removes leading and trailing characters for which
  \<^verbatim>\<open>str.isspace()\<close> holds. These are the code points Python classifies as whitespace:
  U+0009..U+000D, U+001C..U+0020, U+0085, U+00A0, U+1680, U+2000..U+200A, U+2028, U+2029,
  U+202F, U+205F and U+3000.
\<close>

definition is_space :: "pychar \<Rightarrow> bool" where
  "is_space c \<longleftrightarrow>
     (9 \<le> c \<and> c \<le> 13) \<or> (28 \<le> c \<and> c \<le> 32) \<or> c = 133 \<or> c = 160 \<or> c = 5760 \<or>
     (8192 \<le> c \<and> c \<le> 8202) \<or> c = 8232 \<or> c = 8233 \<or> c = 8239 \<or> c = 8287 \<or> c = 12288"

definition strip :: "pystr \<Rightarrow> pystr" where
  "strip s = rev (dropWhile is_space (rev (dropWhile is_space s)))"

text \<open>The non-whitespace content of a string, in order.\<close>

definition non_space :: "pystr \<Rightarrow> pystr" where
  "non_space s = filter (\<lambda>c. \<not> is_space c) s"

text \<open>
  A string is trimmed when it is non-empty and neither begins nor ends with whitespace, as
  the result of a non-empty \<^verbatim>\<open>strip()\<close> is.
\<close>

definition trimmed :: "pystr \<Rightarrow> bool" where
  "trimmed s \<longleftrightarrow> s \<noteq> [] \<and> \<not> is_space (hd s) \<and> \<not> is_space (last s)"

section \<open>The segmenter: \<^verbatim>\<open>split_narration\<close>\<close>

text \<open>
  The source's \<^verbatim>\<open>delimiters\<close> is a set of eleven characters: the full-width ideographic
  full stop U+3002, comma U+FF0C, semicolon U+FF1B, exclamation mark U+FF01, question
  mark U+FF1F and ideographic comma U+3001, and the ASCII characters
  \<^verbatim>\<open>. , ; ! ?\<close>.
\<close>

definition delimiters :: "pychar set" where
  "delimiters = {12290, 65292, 65307, 65281, 65311, 12289, 46, 44, 59, 33, 63}"

text \<open>
  Both branches of the loop body close the buffer the same way:
  \<^verbatim>\<open>seg = "".join(current).strip(); if seg: segments.append(seg)\<close>.
\<close>

definition close_segment :: "pystr list \<Rightarrow> pystr \<Rightarrow> pystr list" where
  "close_segment segments current =
     (let seg = strip current in if seg \<noteq> [] then segments @ [seg] else segments)"

text \<open>
  The loop state is the triple of the source's variables \<^verbatim>\<open>segments\<close>, \<^verbatim>\<open>current\<close> and
  \<^verbatim>\<open>current_len\<close>. One iteration appends the character and then tests the two
  conditions in the source's order.
\<close>

type_synonym split_state = "pystr list \<times> pystr \<times> nat"

fun split_step :: "int \<Rightarrow> split_state \<Rightarrow> pychar \<Rightarrow> split_state" where
  "split_step max_len (segments, current, current_len) ch =
     (let current' = current @ [ch];
          current_len' = current_len + 1
      in if ch \<in> delimiters \<and> current_len' \<ge> 5 then
           (close_segment segments current', [], 0)
         else if int current_len' \<ge> max_len then
           (close_segment segments current', [], 0)
         else (segments, current', current_len'))"

fun split_loop :: "int \<Rightarrow> pystr \<Rightarrow> split_state \<Rightarrow> split_state" where
  "split_loop max_len [] st = st"
| "split_loop max_len (ch # rest) st = split_loop max_len rest (split_step max_len st ch)"

text \<open>
  After the loop the remaining buffer is trimmed, merged into the last segment when it is
  shorter than five characters and a segment exists, or appended as a segment of its own.
  Python's \<^verbatim>\<open>segments[-1] += remaining\<close> is guarded by \<^verbatim>\<open>segments\<close> being non-empty.
\<close>

definition finish :: "split_state \<Rightarrow> pystr list" where
  "finish st =
     (case st of (segments, current, current_len) \<Rightarrow>
        if current \<noteq> [] then
          (let remaining = strip current in
           if remaining \<noteq> [] then
             (if segments \<noteq> [] \<and> length remaining < 5
              then butlast segments @ [last segments @ remaining]
              else segments @ [remaining])
           else segments)
        else segments)"

definition split_narration :: "pystr \<Rightarrow> int \<Rightarrow> pystr list" where
  "split_narration text max_len =
     filter (\<lambda>s. strip s \<noteq> []) (finish (split_loop max_len text ([], [], 0)))"

text \<open>
  Auxiliary notions for reasoning about the loop: the characters a state holds (closed
  segments followed by the buffer), the states whose buffer is shorter than \<open>max_len\<close>
  and whose segments are no longer than \<open>max_len\<close>, and the states whose segments all
  contain a non-whitespace character.
\<close>

definition content :: "split_state \<Rightarrow> pystr" where
  "content st = (case st of (segments, current, current_len) \<Rightarrow> concat segments @ current)"

definition bounded :: "int \<Rightarrow> split_state \<Rightarrow> bool" where
  "bounded max_len st =
     (case st of (segments, current, current_len) \<Rightarrow>
        length current = current_len \<and> int current_len < max_len \<and>
        list_all (\<lambda>s. int (length s) \<le> max_len) segments)"

definition nonblank :: "pystr list \<Rightarrow> bool" where
  "nonblank segments = list_all (\<lambda>s. strip s \<noteq> []) segments"

text \<open>
  The condition under which the end-of-input code takes the branch
  \<^verbatim>\<open>segments[-1] += remaining\<close>.
\<close>

definition merges_tail :: "pystr \<Rightarrow> int \<Rightarrow> bool" where
  "merges_tail text max_len =
     (case split_loop max_len text ([], [], 0) of (segments, current, current_len) \<Rightarrow>
        strip current \<noteq> [] \<and> segments \<noteq> [] \<and> length (strip current) < 5)"

section \<open>Timestamps: \<^verbatim>\<open>format_srt_time\<close>\<close>

text \<open>
  Times are Python floats in the source. They are modelled by real numbers, so the
  arithmetic below is exact where the source rounds to the nearest double.

  For a positive divisor, Python's \<^verbatim>\<open>x // y\<close> is the floor of the quotient (as a float),
  \<^verbatim>\<open>x % y\<close> is the remainder with the sign of the divisor, and \<^verbatim>\<open>int(x)\<close> truncates
  towards zero.
\<close>

definition py_floordiv :: "real \<Rightarrow> real \<Rightarrow> real" where
  "py_floordiv x y = of_int \<lfloor>x / y\<rfloor>"

definition py_mod :: "real \<Rightarrow> real \<Rightarrow> real" where
  "py_mod x y = x - y * of_int \<lfloor>x / y\<rfloor>"

definition py_int :: "real \<Rightarrow> int" where
  "py_int x = (if x \<ge> 0 then \<lfloor>x\<rfloor> else \<lceil>x\<rceil>)"

text \<open>Decimal digits of a natural number, as \<^verbatim>\<open>str(n)\<close> prints them.\<close>

fun digits :: "nat \<Rightarrow> pystr" where
  "digits n = (if n < 10 then [48 + n] else digits (n div 10) @ [48 + n mod 10])"

declare digits.simps [simp del]

text \<open>
  The format specification \<^verbatim>\<open>0wd\<close> pads with zeros to width \<^verbatim>\<open>w\<close>; the sign of a
  negative number counts towards the width and precedes the zeros.
\<close>

definition zero_pad :: "nat \<Rightarrow> int \<Rightarrow> pystr" where
  "zero_pad w n =
     (if n < 0 then
        45 # replicate ((w - 1) - length (digits (nat (- n)))) 48 @ digits (nat (- n))
      else replicate (w - length (digits (nat n))) 48 @ digits (nat n))"

definition format_srt_time :: "real \<Rightarrow> pystr" where
  "format_srt_time seconds =
     (let hours = py_int (py_floordiv seconds 3600);
          minutes = py_int (py_floordiv (py_mod seconds 3600) 60);
          secs = py_int (py_mod seconds 60);
          millis = py_int (py_mod seconds 1 * 1000)
      in zero_pad 2 hours @ of_ascii '':'' @ zero_pad 2 minutes @ of_ascii '':'' @
         zero_pad 2 secs @ of_ascii '','' @ zero_pad 3 millis)"

section \<open>The cue timeline: \<^verbatim>\<open>generate_srt\<close>\<close>

text \<open>
  A scene is a JSON object; \<^verbatim>\<open>scene.get("narration", "")\<close> and
  \<^verbatim>\<open>scene.get("durationSeconds", 5.0)\<close> supply defaults for absent keys, and
  \<^verbatim>\<open>data.get("scenes", [])\<close> for an absent scene list.
\<close>

record scene =
  narration :: "pystr option"
  durationSeconds :: "real option"

record video_data =
  scenes :: "scene list option"

definition get_narration :: "scene \<Rightarrow> pystr" where
  "get_narration sc = (case narration sc of None \<Rightarrow> [] | Some n \<Rightarrow> n)"

definition get_duration :: "scene \<Rightarrow> real" where
  "get_duration sc = (case durationSeconds sc of None \<Rightarrow> 5 | Some d \<Rightarrow> d)"

definition get_scenes :: "video_data \<Rightarrow> scene list" where
  "get_scenes data = (case scenes data of None \<Rightarrow> [] | Some ss \<Rightarrow> ss)"

text \<open>The variables that \<^verbatim>\<open>generate_srt\<close> threads through its two loops.\<close>

record gen_state =
  lines :: "pystr list"
  subtitle_index :: nat
  cum_time :: real

definition init_state :: gen_state where
  "init_state = \<lparr>lines = [], subtitle_index = 1, cum_time = 0\<rparr>"

text \<open>The inner loop \<^verbatim>\<open>for seg in segments\<close>, for a scene of the given duration.\<close>

fun seg_loop :: "real \<Rightarrow> nat \<Rightarrow> pystr list \<Rightarrow> gen_state \<Rightarrow> gen_state" where
  "seg_loop duration total_chars [] st = st"
| "seg_loop duration total_chars (seg # rest) st =
     (let ratio = real (length seg) / real (max total_chars 1);
          seg_duration = duration * ratio;
          start_ts = format_srt_time (cum_time st);
          end_ts = format_srt_time (cum_time st + seg_duration)
      in seg_loop duration total_chars rest
           \<lparr>lines = lines st @
              [digits (subtitle_index st), start_ts @ of_ascii '' --> '' @ end_ts, seg, []],
            subtitle_index = subtitle_index st + 1,
            cum_time = cum_time st + seg_duration\<rparr>)"

text \<open>The body of the outer loop \<^verbatim>\<open>for scene in scenes\<close>.\<close>

definition scene_step :: "gen_state \<Rightarrow> scene \<Rightarrow> gen_state" where
  "scene_step st sc =
     (let narr = get_narration sc;
          duration = get_duration sc
      in if strip narr = [] then st\<lparr>cum_time := cum_time st + duration\<rparr>
         else
           (let segments = split_narration narr 20;
                total_chars = sum_list (map length segments)
            in seg_loop duration total_chars segments st))"

definition scene_loop :: "scene list \<Rightarrow> gen_state \<Rightarrow> gen_state" where
  "scene_loop ss st = foldl scene_step st ss"

text \<open>\<^verbatim>\<open>"\n".join(lines)\<close>: the lines separated by the newline character U+000A.\<close>

fun join_nl :: "pystr list \<Rightarrow> pystr" where
  "join_nl [] = []"
| "join_nl [l] = l"
| "join_nl (l # ls) = l @ 10 # join_nl ls"

definition generate_srt :: "video_data \<Rightarrow> pystr" where
  "generate_srt data = join_nl (lines (scene_loop (get_scenes data) init_state))"

section \<open>The timeline of cues, as the specification describes it\<close>

text \<open>
  The source never builds a cue object: each iteration formats the running index, the
  clock before and after the segment, and the segment into four lines. The specification
  describes the same computation as a builder of cues (index, start, end, text) followed
  by a serializer. The definitions of this section follow the specification's words; the
  lemma \<open>generate_srt_render\<close> below shows that \<open>generate_srt\<close>, as defined from the
  source, is the serialization of this timeline, so that statements about the start and end
  times of cues are statements about what \<open>generate_srt\<close> emits.
\<close>

record cue =
  cue_index :: nat
  startSeconds :: real
  endSeconds :: real
  cue_text :: pystr

record timeline =
  cues :: "cue list"
  nextIndex :: nat
  cumulativeSeconds :: real

definition empty_timeline :: timeline where
  "empty_timeline = \<lparr>cues = [], nextIndex = 1, cumulativeSeconds = 0\<rparr>"

fun emit_cues :: "real \<Rightarrow> nat \<Rightarrow> pystr list \<Rightarrow> timeline \<Rightarrow> timeline" where
  "emit_cues duration totalChars [] tln = tln"
| "emit_cues duration totalChars (s # rest) tln =
     (let ratio = real (length s) / real (max totalChars 1);
          segDuration = duration * ratio
      in emit_cues duration totalChars rest
           \<lparr>cues = cues tln @
              [\<lparr>cue_index = nextIndex tln, startSeconds = cumulativeSeconds tln,
                endSeconds = cumulativeSeconds tln + segDuration, cue_text = s\<rparr>],
            nextIndex = nextIndex tln + 1,
            cumulativeSeconds = cumulativeSeconds tln + segDuration\<rparr>)"

definition timeline_step :: "timeline \<Rightarrow> scene \<Rightarrow> timeline" where
  "timeline_step tln sc =
     (if strip (get_narration sc) = []
      then tln\<lparr>cumulativeSeconds := cumulativeSeconds tln + get_duration sc\<rparr>
      else
        (let segments = split_narration (get_narration sc) 20;
             totalChars = sum_list (map length segments)
         in emit_cues (get_duration sc) totalChars segments tln))"

definition timeline_from :: "timeline \<Rightarrow> scene list \<Rightarrow> timeline" where
  "timeline_from tln ss = foldl timeline_step tln ss"

definition buildTimeline :: "scene list \<Rightarrow> timeline" where
  "buildTimeline ss = timeline_from empty_timeline ss"

definition cue_lines :: "cue \<Rightarrow> pystr list" where
  "cue_lines c =
     [digits (cue_index c),
      format_srt_time (startSeconds c) @ of_ascii '' --> '' @ format_srt_time (endSeconds c),
      cue_text c,
      []]"

definition render :: "cue list \<Rightarrow> pystr" where
  "render cs = join_nl (concat (map cue_lines cs))"

text \<open>
  The duration allocated to a segment, the cues one scene emits in closed form (from the
  index and the clock at which the scene starts), and the cues that a step of the builder
  adds to a timeline.
\<close>

definition seg_duration :: "real \<Rightarrow> nat \<Rightarrow> pystr \<Rightarrow> real" where
  "seg_duration duration totalChars s = duration * (real (length s) / real (max totalChars 1))"

fun seg_cues :: "real \<Rightarrow> nat \<Rightarrow> pystr list \<Rightarrow> nat \<Rightarrow> real \<Rightarrow> cue list" where
  "seg_cues duration totalChars [] idx t = []"
| "seg_cues duration totalChars (s # rest) idx t =
     \<lparr>cue_index = idx, startSeconds = t,
      endSeconds = t + seg_duration duration totalChars s, cue_text = s\<rparr> #
     seg_cues duration totalChars rest (idx + 1) (t + seg_duration duration totalChars s)"

definition scene_cues :: "timeline \<Rightarrow> scene \<Rightarrow> cue list" where
  "scene_cues tln sc = drop (length (cues tln)) (cues (timeline_step tln sc))"


text \<open>
  The state of the source's loops and a timeline describe the same run when the lines are
  the serialized cues and the two accumulators agree.
\<close>

definition same_run :: "gen_state \<Rightarrow> timeline \<Rightarrow> bool" where
  "same_run st tln \<longleftrightarrow>
     lines st = concat (map cue_lines (cues tln)) \<and>
     subtitle_index st = nextIndex tln \<and>
     cum_time st = cumulativeSeconds tln"

text \<open>
  The lines of a string, as Python's \<^verbatim>\<open>s.split("\n")\<close> returns them: the pieces between
  newline characters, a trailing newline giving a last empty piece.
\<close>

fun split_nl :: "pystr \<Rightarrow> pystr list" where
  "split_nl [] = [[]]"
| "split_nl (c # cs) =
     (if c = 10 then [] # split_nl cs
      else (case split_nl cs of [] \<Rightarrow> [[c]] | l # ls \<Rightarrow> (c # l) # ls))"

section \<open>Trimming\<close>

lemma filter_not_dropWhile:
  "filter (\<lambda>c. \<not> P c) (dropWhile P xs) = filter (\<lambda>c. \<not> P c) xs"
  by (induction xs) simp_all

lemma non_space_strip [simp]: "non_space (strip s) = non_space s"
proof -
  have "non_space (strip s) = rev (non_space (dropWhile is_space (rev (dropWhile is_space s))))"
    by (simp add: non_space_def strip_def rev_filter)
  also have "\<dots> = rev (non_space (rev (dropWhile is_space s)))"
    by (simp add: non_space_def filter_not_dropWhile)
  also have "\<dots> = non_space (dropWhile is_space s)"
    by (simp add: non_space_def rev_filter)
  also have "\<dots> = non_space s"
    by (simp add: non_space_def filter_not_dropWhile)
  finally show ?thesis .
qed

lemma non_space_append [simp]: "non_space (a @ b) = non_space a @ non_space b"
  by (simp add: non_space_def)

lemma non_space_Nil [simp]: "non_space [] = []"
  by (simp add: non_space_def)

lemma non_space_eq_Nil_iff: "non_space s = [] \<longleftrightarrow> (\<forall>c\<in>set s. is_space c)"
  by (auto simp: non_space_def filter_empty_conv)

lemma dropWhile_all_iff:
  "(\<forall>x\<in>set (dropWhile P xs). P x) \<longleftrightarrow> (\<forall>x\<in>set xs. P x)"
  by (induction xs) auto

lemma strip_eq_Nil_iff: "strip s = [] \<longleftrightarrow> (\<forall>c\<in>set s. is_space c)"
  by (simp add: strip_def dropWhile_all_iff)

lemma strip_eq_Nil_non_space: "strip s = [] \<longleftrightarrow> non_space s = []"
  by (simp add: strip_eq_Nil_iff non_space_eq_Nil_iff)

lemma strip_Nil [simp]: "strip [] = []"
  by (simp add: strip_def)

lemma length_strip_le: "length (strip s) \<le> length s"
proof -
  have "length (strip s) \<le> length (dropWhile is_space s)"
    unfolding strip_def using length_dropWhile_le [of is_space "rev (dropWhile is_space s)"] by simp
  also have "\<dots> \<le> length s" by (rule length_dropWhile_le)
  finally show ?thesis .
qed

lemma dropWhile_id: "xs = [] \<or> \<not> P (hd xs) \<Longrightarrow> dropWhile P xs = xs"
  by (cases xs) auto

lemma strip_id:
  assumes "s = [] \<or> (\<not> is_space (hd s) \<and> \<not> is_space (last s))"
  shows "strip s = s"
proof -
  from assms have 1: "dropWhile is_space s = s"
    by (intro dropWhile_id) auto
  from assms have 2: "dropWhile is_space (rev s) = rev s"
    by (intro dropWhile_id) (auto simp: hd_rev)
  show ?thesis by (simp add: strip_def 1 2)
qed

section \<open>Properties of the segmenter\<close>

lemma non_space_Cons:
  "non_space (c # s) = (if is_space c then non_space s else c # non_space s)"
  by (simp add: non_space_def)

lemma split_loop_append:
  "split_loop m (a @ b) st = split_loop m b (split_loop m a st)"
  by (induction a arbitrary: st) simp_all

lemma split_loop_invariant:
  assumes "P st" and "\<And>st ch. P st \<Longrightarrow> P (split_step m st ch)"
  shows "P (split_loop m text st)"
  using assms(1) by (induction "text" arbitrary: st) (simp_all add: assms(2))

subsection \<open>The characters of the narration are preserved\<close>

lemma non_space_concat_close:
  "non_space (concat (close_segment segs cur)) = non_space (concat segs) @ non_space cur"
proof (cases "strip cur = []")
  case True
  then have "non_space cur = []" by (simp add: strip_eq_Nil_non_space)
  with True show ?thesis by (simp add: close_segment_def)
next
  case False
  then show ?thesis by (simp add: close_segment_def)
qed

lemma split_step_content:
  "non_space (content (split_step m st ch)) = non_space (content st) @ non_space [ch]"
  by (cases st) (simp add: content_def Let_def non_space_concat_close)

lemma split_loop_content:
  "non_space (content (split_loop m text st)) = non_space (content st) @ non_space text"
proof (induction "text" arbitrary: st)
  case Nil
  show ?case by simp
next
  case (Cons ch rest)
  have "non_space (ch # rest) = non_space [ch] @ non_space rest"
    by (simp add: non_space_Cons)
  with Cons [of "split_step m st ch"] show ?case
    by (simp add: split_step_content)
qed

lemma concat_butlast_last:
  assumes "segs \<noteq> []"
  shows "concat (butlast segs) @ last segs = concat segs"
proof -
  from assms have "concat segs = concat (butlast segs @ [last segs])" by simp
  also have "\<dots> = concat (butlast segs) @ last segs" by simp
  finally show ?thesis by simp
qed

lemma non_space_butlast_last:
  "segs \<noteq> [] \<Longrightarrow>
   non_space (concat (butlast segs)) @ non_space (last segs) = non_space (concat segs)"
  using concat_butlast_last [of segs] non_space_append [of "concat (butlast segs)" "last segs"]
  by simp

lemma finish_content: "non_space (concat (finish st)) = non_space (content st)"
proof (cases st)
  case (fields segs cur n)
  show ?thesis
  proof (cases "strip cur = []")
    case True
    then have "non_space cur = []" by (simp add: strip_eq_Nil_non_space)
    with True fields show ?thesis by (simp add: finish_def content_def)
  next
    case False
    then have "cur \<noteq> []" by auto
    with False fields show ?thesis
      by (simp add: finish_def content_def Let_def non_space_butlast_last)
  qed
qed

lemma non_space_concat_filter:
  "non_space (concat (filter (\<lambda>s. strip s \<noteq> []) xs)) = non_space (concat xs)"
  by (induction xs) (auto simp: strip_eq_Nil_non_space)

lemma split_loop_initial_content:
  "non_space (content (split_loop m text ([], [], 0))) = non_space text"
  by (simp add: split_loop_content) (simp add: content_def)

text \<open>
  Claim C5 (reconstruction). For every narration and every \<open>max_len\<close>, the segments
  returned by \<open>split_narration\<close>, concatenated in order, have exactly the non-whitespace
  characters of the narration, in the original order: trimming, merging and dropping
  whitespace-only chunks remove whitespace only.
\<close>

theorem split_narration_reconstruction:
  "non_space (concat (split_narration text max_len)) = non_space text"
  by (simp add: split_narration_def non_space_concat_filter finish_content
      split_loop_initial_content)

theorem split_narration_reconstruction_witness:
  "non_space (concat (split_narration (of_ascii ''Hello you. Hi'') 20)) = of_ascii ''Helloyou.Hi''"
  unfolding split_narration_reconstruction
  by (simp add: non_space_def is_space_def of_ascii_def)

subsection \<open>No segment is empty or whitespace-only\<close>

lemma strip_strip_eq_Nil: "strip (strip s) = [] \<longleftrightarrow> strip s = []"
  by (simp add: strip_eq_Nil_non_space)

lemma nonblank_close: "nonblank segs \<Longrightarrow> nonblank (close_segment segs cur)"
  by (simp add: nonblank_def close_segment_def Let_def strip_strip_eq_Nil)

lemma nonblank_step:
  "nonblank (fst st) \<Longrightarrow> nonblank (fst (split_step m st ch))"
  by (cases st) (simp add: Let_def nonblank_close)

lemma nonblank_loop: "nonblank (fst st) \<Longrightarrow> nonblank (fst (split_loop m text st))"
  by (rule split_loop_invariant [where P = "\<lambda>st. nonblank (fst st)"]) (simp_all add: nonblank_step)

lemma nonblank_finish: "nonblank (fst st) \<Longrightarrow> nonblank (finish st)"
proof (cases st)
  case (fields segs cur n)
  assume "nonblank (fst st)"
  with fields have nb: "nonblank segs" by simp
  show ?thesis
  proof (cases "strip cur = []")
    case True
    with fields nb show ?thesis by (simp add: finish_def)
  next
    case False
    have butl: "nonblank (butlast segs)"
      using nb by (auto simp: nonblank_def list_all_iff dest: in_set_butlastD)
    have mrg: "strip (last segs @ strip cur) \<noteq> []"
      using False by (simp add: strip_eq_Nil_non_space)
    have own: "strip (strip cur) \<noteq> []"
      using False by (simp add: strip_strip_eq_Nil)
    from fields False nb butl mrg own show ?thesis
      by (simp add: finish_def Let_def nonblank_def)
  qed
qed

lemma filter_nonblank: "nonblank xs \<Longrightarrow> filter (\<lambda>s. strip s \<noteq> []) xs = xs"
  by (simp add: nonblank_def list_all_iff)

lemma split_narration_eq_finish:
  "split_narration text m = finish (split_loop m text ([], [], 0))"
proof -
  have "nonblank (fst (split_loop m text ([], [], 0)))"
    by (rule nonblank_loop) (simp add: nonblank_def)
  then have "nonblank (finish (split_loop m text ([], [], 0)))"
    by (rule nonblank_finish)
  then show ?thesis
    by (simp add: split_narration_def filter_nonblank)
qed


subsection \<open>The end-of-input rule\<close>

lemma finish_cases:
  "finish (segs, cur, n) =
     (if strip cur = [] then segs
      else if segs \<noteq> [] \<and> length (strip cur) < 5 then butlast segs @ [last segs @ strip cur]
      else segs @ [strip cur])"
proof (cases "cur = []")
  case True
  then show ?thesis by (simp add: finish_def)
next
  case False
  then show ?thesis by (simp add: finish_def Let_def)
qed

subsection \<open>Length bounds\<close>

lemma bounded_close:
  assumes "list_all (\<lambda>s. int (length s) \<le> m) segs" and "int (length cur) \<le> m"
  shows "list_all (\<lambda>s. int (length s) \<le> m) (close_segment segs cur)"
proof -
  have "int (length (strip cur)) \<le> m"
    using length_strip_le [of cur] assms(2) by linarith
  with assms(1) show ?thesis by (simp add: close_segment_def Let_def)
qed

lemma bounded_step: "bounded m st \<Longrightarrow> bounded m (split_step m st ch)"
proof (cases st)
  case (fields segs cur n)
  assume "bounded m st"
  with fields have len: "length cur = n" and lt: "int n < m"
    and segs: "list_all (\<lambda>s. int (length s) \<le> m) segs"
    by (simp_all add: bounded_def)
  from len lt have "int (length (cur @ [ch])) \<le> m" by simp
  with segs have cl: "list_all (\<lambda>s. int (length s) \<le> m) (close_segment segs (cur @ [ch]))"
    by (rule bounded_close)
  from lt have pos: "0 < m" by linarith
  show ?thesis
    using fields len lt segs cl pos by (simp add: bounded_def Let_def)
qed

lemma bounded_loop: "1 \<le> m \<Longrightarrow> bounded m (split_loop m text ([], [], 0))"
  by (rule split_loop_invariant [where P = "bounded m"])
     (simp_all add: bounded_def bounded_step [unfolded bounded_def])

lemma split_loop_no_trigger:
  assumes "set p \<inter> delimiters = {} \<or> n + length p < 5" and "int (n + length p) < m"
  shows "split_loop m p (segs, cur, n) = (segs, cur @ p, n + length p)"
  using assms
proof (induction p arbitrary: cur n)
  case Nil
  show ?case by simp
next
  case (Cons c p)
  from Cons.prems have step: "split_step m (segs, cur, n) c = (segs, cur @ [c], Suc n)"
    by (auto simp: Let_def)
  from Cons.prems have "set p \<inter> delimiters = {} \<or> Suc n + length p < 5"
    and "int (Suc n + length p) < m" by auto
  then have "split_loop m p (segs, cur @ [c], Suc n) = (segs, (cur @ [c]) @ p, Suc n + length p)"
    by (rule Cons.IH)
  with step show ?case by simp
qed

lemma split_loop_forced:
  assumes "int (length run) = m" and "1 \<le> m" and "set run \<inter> delimiters = {}"
  shows "split_loop m run (segs, [], 0) = (close_segment segs run, [], 0)"
proof -
  from assms(1,2) have ne: "run \<noteq> []" by auto
  then have run: "run = butlast run @ [last run]" by simp
  have nd: "set (butlast run) \<inter> delimiters = {}"
    using assms(3) by (auto dest: in_set_butlastD)
  from ne obtain k where k: "length run = Suc k" by (cases run) auto
  then have bl: "length (butlast run) = k" by simp
  have lt: "int (0 + length (butlast run)) < m"
    using assms(1) k bl by linarith
  have pre: "split_loop m (butlast run) (segs, [], 0) = (segs, butlast run, length (butlast run))"
    using split_loop_no_trigger [OF disjI1 [OF nd] lt, of segs "[]"] by simp
  have lastnd: "last run \<notin> delimiters"
    using assms(3) ne by (meson disjoint_iff last_in_set)
  have len: "int (Suc (length (butlast run))) = m"
    using assms(1) k bl by linarith
  have "split_loop m run (segs, [], 0) =
        split_loop m [last run] (split_loop m (butlast run) (segs, [], 0))"
    using split_loop_append [of m "butlast run" "[last run]"] run by simp
  also have "\<dots> = split_step m (segs, butlast run, length (butlast run)) (last run)"
    by (simp add: pre)
  also have "\<dots> = (close_segment segs (butlast run @ [last run]), [], 0)"
    using lastnd len by (simp add: Let_def)
  finally show ?thesis using run by simp
qed

lemma split_loop_runs:
  assumes "1 \<le> m"
    and "list_all (\<lambda>r. int (length r) = m \<and> set r \<inter> delimiters = {} \<and> strip r = r) runs"
  shows "split_loop m (concat runs) (segs, [], 0) = (segs @ runs, [], 0)"
  using assms(2)
proof (induction runs arbitrary: segs)
  case Nil
  show ?case by simp
next
  case (Cons r runs)
  from Cons.prems have r: "int (length r) = m" "set r \<inter> delimiters = {}" "strip r = r"
    and rest: "list_all (\<lambda>r. int (length r) = m \<and> set r \<inter> delimiters = {} \<and> strip r = r) runs"
    by simp_all
  from r(1) assms(1) have "r \<noteq> []" by auto
  with r(3) have cl: "close_segment segs r = segs @ [r]"
    by (simp add: close_segment_def)
  have "split_loop m (concat (r # runs)) (segs, [], 0) =
        split_loop m (concat runs) (split_loop m r (segs, [], 0))"
    by (simp add: split_loop_append)
  also have "\<dots> = split_loop m (concat runs) (segs @ [r], [], 0)"
    using split_loop_forced [OF r(1) assms(1) r(2)] cl by simp
  also have "\<dots> = ((segs @ [r]) @ runs, [], 0)"
    using rest by (rule Cons.IH)
  finally show ?case by simp
qed

lemma finish_bounded:
  assumes "bounded m (segs, cur, n)"
  shows "list_all (\<lambda>s. int (length s) \<le> m) (butlast (finish (segs, cur, n)))"
    and "\<not> (strip cur \<noteq> [] \<and> segs \<noteq> [] \<and> length (strip cur) < 5) \<Longrightarrow>
         list_all (\<lambda>s. int (length s) \<le> m) (finish (segs, cur, n))"
    and "list_all (\<lambda>s. int (length s) \<le> m + 4) (finish (segs, cur, n))"
proof -
  from assms have segs: "list_all (\<lambda>s. int (length s) \<le> m) segs"
    and cur: "int (length cur) < m" by (auto simp: bounded_def)
  have rem: "int (length (strip cur)) \<le> m"
    using length_strip_le [of cur] cur by linarith
  have butl: "list_all (\<lambda>s. int (length s) \<le> m) (butlast segs)"
    using segs by (auto simp: list_all_iff dest: in_set_butlastD)
  show "list_all (\<lambda>s. int (length s) \<le> m) (butlast (finish (segs, cur, n)))"
    using segs butl by (simp add: finish_cases butlast_append)
  show "list_all (\<lambda>s. int (length s) \<le> m) (finish (segs, cur, n))"
    if "\<not> (strip cur \<noteq> [] \<and> segs \<noteq> [] \<and> length (strip cur) < 5)"
    using that segs rem by (auto simp: finish_cases)
  have weak: "list_all (\<lambda>s. int (length s) \<le> m + 4) segs"
    using segs by (auto simp: list_all_iff)
  have weakb: "list_all (\<lambda>s. int (length s) \<le> m + 4) (butlast segs)"
    using butl by (auto simp: list_all_iff)
  have lastb: "segs \<noteq> [] \<Longrightarrow> int (length (last segs)) \<le> m"
    using segs by (auto simp: list_all_iff)
  show "list_all (\<lambda>s. int (length s) \<le> m + 4) (finish (segs, cur, n))"
    using weak weakb lastb rem by (auto simp: finish_cases)
qed

subsection \<open>Claims about the segmenter\<close>

lemma of_ascii_append: "of_ascii a @ of_ascii b = of_ascii (a @ b)"
  by (simp add: of_ascii_def)

lemmas seg_eval = split_narration_def finish_def close_segment_def strip_def is_space_def
  delimiters_def of_ascii_def

text \<open>
  Claim C2 (length bound), as it holds on the code. For \<open>max_len \<ge> 1\<close>:
  every returned segment but the last has at most \<open>max_len\<close> characters; so has the last
  one unless the end-of-input code merged a short fragment into it, and then it has at most
  \<open>max_len + 4\<close>. A buffer of \<open>max_len\<close> characters without delimiter is closed at
  exactly that length, whatever the characters are, and what is emitted is the buffer
  trimmed: a narration made of delimiter-free runs of \<open>max_len\<close> characters, none
  beginning or ending with whitespace, is split into exactly these runs.
\<close>

theorem split_narration_length_bound:
  assumes "1 \<le> max_len"
  shows "list_all (\<lambda>s. int (length s) \<le> max_len) (butlast (split_narration narr max_len)) \<and>
         (\<not> merges_tail narr max_len \<longrightarrow>
            list_all (\<lambda>s. int (length s) \<le> max_len) (split_narration narr max_len)) \<and>
         list_all (\<lambda>s. int (length s) \<le> max_len + 4) (split_narration narr max_len) \<and>
         (int (length run) = max_len \<and> set run \<inter> delimiters = {} \<longrightarrow>
            split_loop max_len run (segments, [], 0) = (close_segment segments run, [], 0)) \<and>
         (list_all (\<lambda>r. int (length r) = max_len \<and> set r \<inter> delimiters = {} \<and> strip r = r) runs \<longrightarrow>
            split_narration (concat runs) max_len = runs)"
proof -
  obtain segs cur n where st: "split_loop max_len narr ([], [], 0) = (segs, cur, n)"
    by (cases "split_loop max_len narr ([], [], 0)")
  have b: "bounded max_len (segs, cur, n)"
    using bounded_loop [OF assms, of narr] st by simp
  have res: "split_narration narr max_len = finish (segs, cur, n)"
    by (simp add: split_narration_eq_finish st)
  have mt: "merges_tail narr max_len \<longleftrightarrow> strip cur \<noteq> [] \<and> segs \<noteq> [] \<and> length (strip cur) < 5"
    by (simp add: merges_tail_def st)
  have 1: "list_all (\<lambda>s. int (length s) \<le> max_len) (butlast (split_narration narr max_len))"
    unfolding res by (rule finish_bounded(1) [OF b])
  have 2: "\<not> merges_tail narr max_len \<longrightarrow>
            list_all (\<lambda>s. int (length s) \<le> max_len) (split_narration narr max_len)"
    unfolding res mt using finish_bounded(2) [OF b] by blast
  have 3: "list_all (\<lambda>s. int (length s) \<le> max_len + 4) (split_narration narr max_len)"
    unfolding res by (rule finish_bounded(3) [OF b])
  have 4: "int (length run) = max_len \<and> set run \<inter> delimiters = {} \<longrightarrow>
            split_loop max_len run (segments, [], 0) = (close_segment segments run, [], 0)"
    using split_loop_forced [of run max_len segments] assms by blast
  have 5: "list_all (\<lambda>r. int (length r) = max_len \<and> set r \<inter> delimiters = {} \<and> strip r = r) runs \<longrightarrow>
            split_narration (concat runs) max_len = runs"
  proof
    assume "list_all (\<lambda>r. int (length r) = max_len \<and> set r \<inter> delimiters = {} \<and> strip r = r) runs"
    then have "split_loop max_len (concat runs) ([], [], 0) = ([] @ runs, [], 0)"
      by (rule split_loop_runs [OF assms])
    then show "split_narration (concat runs) max_len = runs"
      by (simp add: split_narration_eq_finish finish_def)
  qed
  from 1 2 3 4 5 show ?thesis by blast
qed

theorem split_narration_length_bound_witness:
  "list_all (\<lambda>s. int (length s) \<le> 3) (split_narration (of_ascii ''abcdef'') 3) \<and>
   list_all (\<lambda>s. int (length s) \<le> 3 + 4) (split_narration (of_ascii ''abcdefgh'') 3) \<and>
   split_loop 3 (of_ascii ''abc'') ([], [], 0) = ([of_ascii ''abc''], [], 0) \<and>
   split_narration (of_ascii ''abcdef'') 3 = [of_ascii ''abc'', of_ascii ''def'']"
proof -
  have h1: "(1::int) \<le> 3" by simp
  have h2: "\<not> merges_tail (of_ascii ''abcdef'') 3"
    by (simp add: merges_tail_def seg_eval)
  have h3: "int (length (of_ascii ''abc'')) = 3 \<and> set (of_ascii ''abc'') \<inter> delimiters = {}"
    by (simp add: delimiters_def of_ascii_def)
  have h4: "list_all (\<lambda>r. int (length r) = 3 \<and> set r \<inter> delimiters = {} \<and> strip r = r)
              [of_ascii ''abc'', of_ascii ''def'']"
    by (simp add: seg_eval)
  have cl: "close_segment [] (of_ascii ''abc'') = [of_ascii ''abc'']"
    by (simp add: seg_eval)
  from split_narration_length_bound [OF h1, of "of_ascii ''abcdef''" "of_ascii ''abc''" "[]"
      "[of_ascii ''abc'', of_ascii ''def'']"] h2 h3 h4
    split_narration_length_bound [OF h1, of "of_ascii ''abcdefgh''" "[]" "[]" "[]"]
  show ?thesis by (simp add: cl of_ascii_append)
qed

text \<open>
  The segments of a forced split need not have exactly \<open>max_len\<close> characters: the
  delimiter-free narration \<^verbatim>\<open>"ab cdefgh"\<close> with \<open>max_len = 3\<close> is cut after
  \<^verbatim>\<open>"ab "\<close>, which is emitted trimmed, with two characters.
\<close>

theorem force_split_trims_counterexample:
  "set (of_ascii ''ab cdefgh'') \<inter> delimiters = {} \<and>
   split_narration (of_ascii ''ab cdefgh'') 3 = [of_ascii ''ab'', of_ascii ''cde'', of_ascii ''fgh'']"
  by (simp add: seg_eval)

text \<open>
  Claim C4 (end of input), as it holds on the code. Let the loop end with the segments
  \<open>segments\<close> and the buffer \<open>current\<close>. If the trimmed buffer is empty, the result is
  \<open>segments\<close>; if it is non-empty, shorter than five characters and a segment exists, it is
  appended to the last segment; otherwise it becomes a final segment of its own. In terms
  of the narration: when it is a part \<open>before\<close>, after which the buffer is empty, followed
  by a remainder \<open>rest\<close> that triggers no split and is not whitespace-only, the trimmed
  remainder is merged or stands alone by the same rule. In particular a narration shorter
  than five characters and shorter than \<open>max_len\<close> that is not whitespace-only is returned
  as the single segment of its trimmed text.
\<close>

theorem split_narration_end_of_input:
  "(split_loop max_len narr ([], [], 0) = (segments, current, n) \<longrightarrow>
      split_narration narr max_len =
        (if strip current = [] then segments
         else if segments \<noteq> [] \<and> length (strip current) < 5
              then butlast segments @ [last segments @ strip current]
              else segments @ [strip current])) \<and>
   (split_loop max_len before ([], [], 0) = (emitted, [], 0) \<and>
    (set rest \<inter> delimiters = {} \<or> length rest < 5) \<and> int (length rest) < max_len \<and>
    strip rest \<noteq> [] \<longrightarrow>
      split_narration (before @ rest) max_len =
        (if emitted \<noteq> [] \<and> length (strip rest) < 5
         then butlast emitted @ [last emitted @ strip rest]
         else emitted @ [strip rest])) \<and>
   (length narr < 5 \<and> int (length narr) < max_len \<and> strip narr \<noteq> [] \<longrightarrow>
      split_narration narr max_len = [strip narr])"
proof (intro conjI impI)
  assume "split_loop max_len narr ([], [], 0) = (segments, current, n)"
  then show "split_narration narr max_len =
        (if strip current = [] then segments
         else if segments \<noteq> [] \<and> length (strip current) < 5
              then butlast segments @ [last segments @ strip current]
              else segments @ [strip current])"
    by (simp only: split_narration_eq_finish finish_cases)
next
  assume a: "split_loop max_len before ([], [], 0) = (emitted, [], 0) \<and>
    (set rest \<inter> delimiters = {} \<or> length rest < 5) \<and> int (length rest) < max_len \<and>
    strip rest \<noteq> []"
  then have "split_loop max_len rest (emitted, [], 0) = (emitted, [] @ rest, 0 + length rest)"
    by (intro split_loop_no_trigger) simp_all
  moreover have "split_loop max_len (before @ rest) ([], [], 0) =
      split_loop max_len rest (split_loop max_len before ([], [], 0))"
    by (rule split_loop_append)
  ultimately have "split_loop max_len (before @ rest) ([], [], 0) = (emitted, rest, length rest)"
    using a by simp
  with a show "split_narration (before @ rest) max_len =
        (if emitted \<noteq> [] \<and> length (strip rest) < 5
         then butlast emitted @ [last emitted @ strip rest]
         else emitted @ [strip rest])"
    by (simp add: split_narration_eq_finish finish_cases)
next
  assume a: "length narr < 5 \<and> int (length narr) < max_len \<and> strip narr \<noteq> []"
  then have "split_loop max_len narr ([], [], 0) = ([], [] @ narr, 0 + length narr)"
    by (intro split_loop_no_trigger) simp_all
  with a show "split_narration narr max_len = [strip narr]"
    by (simp add: split_narration_eq_finish finish_cases)
qed

theorem split_narration_end_of_input_witness:
  "split_narration (of_ascii ''Hello you. Hi'') 20 = [of_ascii ''Hello you.Hi''] \<and>
   split_narration (of_ascii ''Hello you. Hi there'') 20 =
     [of_ascii ''Hello you.'', of_ascii ''Hi there''] \<and>
   split_narration (of_ascii '' Hi.'') 20 = [of_ascii ''Hi.'']"
proof -
  have l1: "split_loop 20 (of_ascii ''Hello you. Hi'') ([], [], 0) =
              ([of_ascii ''Hello you.''], of_ascii '' Hi'', 3)"
    by (simp add: seg_eval)
  have l2: "split_loop 20 (of_ascii ''Hello you.'') ([], [], 0) =
              ([of_ascii ''Hello you.''], [], 0)"
    by (simp add: seg_eval)
  have h2: "(set (of_ascii '' Hi there'') \<inter> delimiters = {} \<or> length (of_ascii '' Hi there'') < 5) \<and>
            int (length (of_ascii '' Hi there'')) < 20 \<and> strip (of_ascii '' Hi there'') \<noteq> []"
    by (simp add: seg_eval)
  have h3: "length (of_ascii '' Hi.'') < 5 \<and> int (length (of_ascii '' Hi.'')) < 20 \<and>
            strip (of_ascii '' Hi.'') \<noteq> []"
    by (simp add: seg_eval)
  have s1: "strip (of_ascii '' Hi'') = of_ascii ''Hi''" by (simp add: seg_eval)
  have s2: "strip (of_ascii '' Hi there'') = of_ascii ''Hi there''" by (simp add: seg_eval)
  have s3: "strip (of_ascii '' Hi.'') = of_ascii ''Hi.''" by (simp add: seg_eval)
  note inst1 = split_narration_end_of_input [of 20 "of_ascii ''Hello you. Hi''"
      "[of_ascii ''Hello you.'']" "of_ascii '' Hi''" 3 "[]" "[]" "[]"]
  note inst2 = split_narration_end_of_input [of 20 "of_ascii '' Hi.''" "[]" "[]" 0
      "of_ascii ''Hello you.''" "[of_ascii ''Hello you.'']" "of_ascii '' Hi there''"]
  from inst1 l1
  have r1: "split_narration (of_ascii ''Hello you. Hi'') 20 = [of_ascii ''Hello you.Hi'']"
    by (simp add: s1) (simp add: of_ascii_def)
  from inst2 l2 h2
  have r2: "split_narration (of_ascii ''Hello you. Hi there'') 20 =
              [of_ascii ''Hello you.'', of_ascii ''Hi there'']"
    by (simp add: s2 of_ascii_append) (simp add: of_ascii_def)?
  from inst2 h3
  have r3: "split_narration (of_ascii '' Hi.'') 20 = [of_ascii ''Hi.'']"
    by (simp add: s3)
  from r1 r2 r3 show ?thesis by (intro conjI)
qed

text \<open>
  A narration shorter than five characters is not always a single segment: with
  \<open>max_len = 2\<close> the length check splits \<^verbatim>\<open>"abcd"\<close>, which holds no delimiter, in two.
\<close>

theorem short_narration_split_counterexample:
  "length (of_ascii ''abcd'') < 5 \<and> set (of_ascii ''abcd'') \<inter> delimiters = {} \<and>
   split_narration (of_ascii ''abcd'') 2 = [of_ascii ''ab'', of_ascii ''cd'']"
  by (simp add: seg_eval)

lemma strip_gap:
  assumes "list_all is_space gap" and "fragment \<noteq> []"
    and "\<not> is_space (hd fragment)" and "\<not> is_space (last fragment)"
  shows "strip (gap @ fragment) = fragment"
proof -
  have "dropWhile is_space (gap @ fragment) = dropWhile is_space fragment"
    using assms(1) by (simp add: list_all_iff)
  also have "\<dots> = fragment"
    using assms(3) by (intro dropWhile_id) simp
  finally have 1: "dropWhile is_space (gap @ fragment) = fragment" .
  have 2: "dropWhile is_space (rev fragment) = rev fragment"
    using assms(2,4) by (intro dropWhile_id) (simp add: hd_rev)
  show ?thesis by (simp add: strip_def 1 2)
qed

text \<open>
  Claim C10 (merging drops the separating whitespace). \<^verbatim>\<open>split_narration("Hello you. Hi", 20)\<close>
  is \<^verbatim>\<open>["Hello you.Hi"]\<close>. In general, when the narration is a part \<open>before\<close> after
  which the buffer is empty and a segment exists, then whitespace \<open>gap\<close>, then a fragment
  shorter than five characters that triggers no further split, the fragment is appended to
  the last segment directly and \<open>gap\<close> does not occur in the result.
\<close>

theorem merge_drops_separating_whitespace:
  "split_narration (of_ascii ''Hello you. Hi'') 20 = [of_ascii ''Hello you.Hi''] \<and>
   (split_loop max_len before ([], [], 0) = (segments, [], 0) \<and> segments \<noteq> [] \<and>
    list_all is_space gap \<and>
    fragment \<noteq> [] \<and> \<not> is_space (hd fragment) \<and> \<not> is_space (last fragment) \<and>
    length fragment < 5 \<and>
    (set fragment \<inter> delimiters = {} \<or> length (gap @ fragment) < 5) \<and>
    int (length (gap @ fragment)) < max_len \<longrightarrow>
      split_narration (before @ gap @ fragment) max_len =
        butlast segments @ [last segments @ fragment])"
proof (intro conjI impI)
  show "split_narration (of_ascii ''Hello you. Hi'') 20 = [of_ascii ''Hello you.Hi'']"
    by (simp add: seg_eval)
next
  assume a: "split_loop max_len before ([], [], 0) = (segments, [], 0) \<and> segments \<noteq> [] \<and>
    list_all is_space gap \<and>
    fragment \<noteq> [] \<and> \<not> is_space (hd fragment) \<and> \<not> is_space (last fragment) \<and>
    length fragment < 5 \<and>
    (set fragment \<inter> delimiters = {} \<or> length (gap @ fragment) < 5) \<and>
    int (length (gap @ fragment)) < max_len"
  have sp_nd: "\<And>c. is_space c \<Longrightarrow> c \<notin> delimiters"
    by (auto simp: is_space_def delimiters_def)
  from a have "set gap \<inter> delimiters = {}"
    by (auto simp: list_all_iff dest: sp_nd)
  with a have nd: "set (gap @ fragment) \<inter> delimiters = {} \<or> 0 + length (gap @ fragment) < 5"
    by auto
  from a have lt: "int (0 + length (gap @ fragment)) < max_len" by simp
  have tail: "split_loop max_len (gap @ fragment) (segments, [], 0) =
          (segments, [] @ (gap @ fragment), 0 + length (gap @ fragment))"
    using nd lt by (rule split_loop_no_trigger)
  have "split_loop max_len (before @ gap @ fragment) ([], [], 0) =
        split_loop max_len (gap @ fragment) (split_loop max_len before ([], [], 0))"
    by (rule split_loop_append)
  with a tail have st: "split_loop max_len (before @ gap @ fragment) ([], [], 0) =
        (segments, gap @ fragment, length (gap @ fragment))"
    by simp
  from a have tr: "strip (gap @ fragment) = fragment"
    by (intro strip_gap) simp_all
  from a show "split_narration (before @ gap @ fragment) max_len =
        butlast segments @ [last segments @ fragment]"
    by (simp add: split_narration_eq_finish st finish_cases tr)
qed

theorem merge_drops_separating_whitespace_witness:
  "split_narration (of_ascii ''One, two, three.   ok'') 20 = [of_ascii ''One, two,'', of_ascii ''three.ok'']"
proof -
  have l: "split_loop 20 (of_ascii ''One, two, three.'') ([], [], 0) =
             ([of_ascii ''One, two,'', of_ascii ''three.''], [], 0)"
    by (simp add: seg_eval)
  have h: "list_all is_space (of_ascii ''   '') \<and> of_ascii ''ok'' \<noteq> [] \<and>
           \<not> is_space (hd (of_ascii ''ok'')) \<and> \<not> is_space (last (of_ascii ''ok'')) \<and>
           length (of_ascii ''ok'') < 5 \<and>
           (set (of_ascii ''ok'') \<inter> delimiters = {} \<or> length (of_ascii ''   '' @ of_ascii ''ok'') < 5) \<and>
           int (length (of_ascii ''   '' @ of_ascii ''ok'')) < 20"
    by (simp add: seg_eval)
  from merge_drops_separating_whitespace [of 20 "of_ascii ''One, two, three.''"
      "[of_ascii ''One, two,'', of_ascii ''three.'']" "of_ascii ''   ''" "of_ascii ''ok''"] l h
  show ?thesis by (simp add: of_ascii_append)
qed

section \<open>Properties of the timestamp format\<close>

lemma py_int_of_int: "py_int (of_int k) = k"
  by (simp add: py_int_def)

lemma py_int_nonneg: "0 \<le> x \<Longrightarrow> py_int x = \<lfloor>x\<rfloor>"
  by (simp add: py_int_def)

lemma py_mod_range:
  assumes "0 < y"
  shows "0 \<le> py_mod x y" and "py_mod x y < y"
proof -
  have lo: "of_int \<lfloor>x / y\<rfloor> \<le> x / y" by (rule of_int_floor_le)
  have hi: "x / y < of_int \<lfloor>x / y\<rfloor> + 1" by linarith
  from lo have "of_int \<lfloor>x / y\<rfloor> * y \<le> x"
    using pos_le_divide_eq [OF assms, of "of_int \<lfloor>x / y\<rfloor>" x] by blast
  then show "0 \<le> py_mod x y" by (simp add: py_mod_def mult.commute)
  from hi have "x < (of_int \<lfloor>x / y\<rfloor> + 1) * y"
    using pos_divide_less_eq [OF assms, of x "of_int \<lfloor>x / y\<rfloor> + 1"] by blast
  then show "py_mod x y < y" by (simp add: py_mod_def algebra_simps)
qed

lemma py_mod_one: "py_mod x 1 = frac x"
  by (simp add: py_mod_def frac_def)

lemma hours_floor: "py_int (py_floordiv s 3600) = \<lfloor>s / 3600\<rfloor>"
  by (simp add: py_floordiv_def py_int_of_int)

lemma minutes_floor:
  "py_int (py_floordiv (py_mod s 3600) 60) = \<lfloor>(s - 3600 * of_int \<lfloor>s / 3600\<rfloor>) / 60\<rfloor>"
  by (simp only: py_floordiv_def py_int_of_int py_mod_def)

lemma secs_floor: "py_int (py_mod s 60) = \<lfloor>s - 60 * of_int \<lfloor>s / 60\<rfloor>\<rfloor>"
  using py_mod_range(1) [of 60 s] by (simp add: py_int_nonneg) (simp add: py_mod_def)

lemma millis_floor: "py_int (py_mod s 1 * 1000) = \<lfloor>frac s * 1000\<rfloor>"
  using py_mod_range(1) [of 1 s] by (simp add: py_int_nonneg) (simp add: py_mod_one)

lemma format_srt_time_floor:
  "format_srt_time s =
     zero_pad 2 \<lfloor>s / 3600\<rfloor> @ of_ascii '':'' @
     zero_pad 2 \<lfloor>(s - 3600 * of_int \<lfloor>s / 3600\<rfloor>) / 60\<rfloor> @ of_ascii '':'' @
     zero_pad 2 \<lfloor>s - 60 * of_int \<lfloor>s / 60\<rfloor>\<rfloor> @ of_ascii '','' @
     zero_pad 3 \<lfloor>frac s * 1000\<rfloor>"
  unfolding format_srt_time_def Let_def
  by (simp only: hours_floor minutes_floor secs_floor millis_floor)








subsection \<open>Field widths\<close>

lemma length_digits_pos: "1 \<le> length (digits n)"
  by (subst digits.simps) simp







lemma replicate_eval:
  "replicate 1 x = [x]" "replicate 2 x = [x, x]" "replicate 3 x = [x, x, x]"
  by (simp_all add: numeral_2_eq_2 numeral_3_eq_3)

lemmas time_eval = format_srt_time_floor zero_pad_def digits.simps of_ascii_def replicate_eval
  frac_def




section \<open>Properties of the timeline\<close>

subsection \<open>The source's loops compute the serialized timeline\<close>

lemma emit_cues_closed:
  "emit_cues d tot segs tln =
     \<lparr>cues = cues tln @ seg_cues d tot segs (nextIndex tln) (cumulativeSeconds tln),
      nextIndex = nextIndex tln + length segs,
      cumulativeSeconds = cumulativeSeconds tln + sum_list (map (seg_duration d tot) segs)\<rparr>"
  by (induction segs arbitrary: tln) (simp_all add: Let_def seg_duration_def)

lemma seg_loop_same_run:
  "same_run st tln \<Longrightarrow> same_run (seg_loop d tot segs st) (emit_cues d tot segs tln)"
proof (induction segs arbitrary: st tln)
  case Nil
  then show ?case by simp
next
  case (Cons s segs)
  show ?case
    unfolding seg_loop.simps emit_cues.simps Let_def
    by (rule Cons.IH) (use Cons.prems in \<open>simp add: same_run_def cue_lines_def\<close>)
qed

lemma scene_step_same_run:
  "same_run st tln \<Longrightarrow> same_run (scene_step st sc) (timeline_step tln sc)"
proof (cases "strip (get_narration sc) = []")
  case True
  assume "same_run st tln"
  with True show ?thesis
    by (simp add: scene_step_def timeline_step_def same_run_def)
next
  case False
  assume "same_run st tln"
  then show ?thesis
    using False by (simp add: scene_step_def timeline_step_def Let_def seg_loop_same_run)
qed

lemma scene_loop_same_run:
  "same_run st tln \<Longrightarrow> same_run (scene_loop ss st) (timeline_from tln ss)"
  unfolding scene_loop_def timeline_from_def
  by (induction ss arbitrary: st tln) (simp_all add: scene_step_same_run)

lemma init_same_run: "same_run init_state empty_timeline"
  by (simp add: same_run_def init_state_def empty_timeline_def)

lemma generate_srt_render:
  "generate_srt data = render (cues (buildTimeline (get_scenes data)))"
  using scene_loop_same_run [OF init_same_run, of "get_scenes data"]
  by (simp add: generate_srt_def render_def buildTimeline_def same_run_def)

subsection \<open>The clock\<close>







lemma seg_loop_index:
  "subtitle_index (seg_loop d tot segs st) = subtitle_index st + length segs"
  by (induction segs arbitrary: st) (simp_all add: Let_def)




subsection \<open>The cues of one scene\<close>

lemma seg_cues_length [simp]: "length (seg_cues d tot segs idx t) = length segs"
  by (induction segs arbitrary: idx t) simp_all

lemma seg_cues_index: "map cue_index (seg_cues d tot segs idx t) = [idx..<idx + length segs]"
proof (induction segs arbitrary: idx t)
  case Nil
  show ?case by simp
next
  case (Cons s segs)
  have "[idx..<idx + length (s # segs)] = idx # [Suc idx..<Suc idx + length segs]"
    by (simp add: upt_rec)
  with Cons show ?case by simp
qed

lemma seg_cues_text: "map cue_text (seg_cues d tot segs idx t) = segs"
  by (induction segs arbitrary: idx t) simp_all












subsection \<open>Steps of the builder\<close>

lemma scene_cues_eq:
  "scene_cues tln sc =
     (if strip (get_narration sc) = [] then []
      else seg_cues (get_duration sc)
             (sum_list (map length (split_narration (get_narration sc) 20)))
             (split_narration (get_narration sc) 20) (nextIndex tln) (cumulativeSeconds tln))"
  by (simp add: scene_cues_def timeline_step_def Let_def emit_cues_closed)

lemma timeline_step_cues: "cues (timeline_step tln sc) = cues tln @ scene_cues tln sc"
  by (simp add: scene_cues_def timeline_step_def Let_def emit_cues_closed)

lemma timeline_step_index:
  "nextIndex (timeline_step tln sc) = nextIndex tln + length (scene_cues tln sc)"
  by (simp add: scene_cues_def timeline_step_def Let_def emit_cues_closed)





lemma scene_cues_index:
  "map cue_index (scene_cues tln sc) = [nextIndex tln..<nextIndex tln + length (scene_cues tln sc)]"
  using seg_cues_index by (simp add: scene_cues_eq)

subsection \<open>Invariants of the whole timeline\<close>

lemma timeline_from_snoc: "timeline_from tln (ss @ [sc]) = timeline_step (timeline_from tln ss) sc"
  by (simp add: timeline_from_def)

lemma timeline_step_index_inv:
  assumes "map cue_index (cues tln) = [1..<nextIndex tln]" and "1 \<le> nextIndex tln"
  shows "map cue_index (cues (timeline_step tln sc)) = [1..<nextIndex (timeline_step tln sc)]"
proof -
  have "[1..<nextIndex tln + length (scene_cues tln sc)] =
        [1..<nextIndex tln] @ [nextIndex tln..<nextIndex tln + length (scene_cues tln sc)]"
    using assms(2) by (rule upt_add_eq_append)
  with assms(1) scene_cues_index [of tln sc] show ?thesis
    by (simp add: timeline_step_cues timeline_step_index)
qed

lemma timeline_from_index_inv:
  assumes "map cue_index (cues tln) = [1..<nextIndex tln]" and "1 \<le> nextIndex tln"
  shows "map cue_index (cues (timeline_from tln ss)) = [1..<nextIndex (timeline_from tln ss)] \<and>
         1 \<le> nextIndex (timeline_from tln ss)"
proof (induction ss rule: rev_induct)
  case Nil
  from assms show ?case by (simp add: timeline_from_def)
next
  case (snoc sc ss)
  then show ?case
    by (simp add: timeline_from_snoc timeline_step_index_inv timeline_step_index)
qed

lemma buildTimeline_index:
  "map cue_index (cues (buildTimeline ss)) = [1..<Suc (length (cues (buildTimeline ss)))]"
proof -
  have inv: "map cue_index (cues (buildTimeline ss)) = [1..<nextIndex (buildTimeline ss)] \<and>
         1 \<le> nextIndex (buildTimeline ss)"
    unfolding buildTimeline_def
    by (rule timeline_from_index_inv) (simp_all add: empty_timeline_def)
  then have "length (map cue_index (cues (buildTimeline ss))) = length [1..<nextIndex (buildTimeline ss)]"
    by simp
  then have "length (cues (buildTimeline ss)) = nextIndex (buildTimeline ss) - 1" by simp
  with inv have "nextIndex (buildTimeline ss) = Suc (length (cues (buildTimeline ss)))" by simp
  with inv show ?thesis by simp
qed







lemma scene_cues_text:
  "map cue_text (scene_cues tln sc) =
     (if strip (get_narration sc) = [] then [] else split_narration (get_narration sc) 20)"
  by (simp add: scene_cues_eq seg_cues_text)



subsection \<open>Evaluation on concrete scenes\<close>

lemmas tl_eval = buildTimeline_def timeline_from_def timeline_step_def empty_timeline_def
  get_narration_def get_duration_def get_scenes_def Let_def seg_duration_def

text \<open>
  Claim C3 (the scenario of the specification). The narration is the thirteen characters
  U+4F60 U+597D U+FF0C U+4E16 U+754C U+FF01 U+4ECA U+5929 U+5929 U+6C14 U+5F88 U+597D U+3002.
  After the comma the buffer holds three characters and is not closed; the exclamation
  mark closes it at six characters and the final full stop closes the remaining seven.
  With a duration of 10 the two cues last \<open>10 * 6 / 13\<close> and \<open>10 * 7 / 13\<close> seconds, which
  add up to 10.
\<close>

theorem scenario_two_cues:
  "split_loop 20 [20320, 22909, 65292] ([], [], 0) = ([], [20320, 22909, 65292], 3) \<and>
   split_loop 20 [20320, 22909, 65292, 19990, 30028, 65281] ([], [], 0) =
     ([[20320, 22909, 65292, 19990, 30028, 65281]], [], 0) \<and>
   split_narration
     [20320, 22909, 65292, 19990, 30028, 65281, 20170, 22825, 22825, 27668, 24456, 22909, 12290] 20 =
     [[20320, 22909, 65292, 19990, 30028, 65281],
      [20170, 22825, 22825, 27668, 24456, 22909, 12290]] \<and>
   cues (buildTimeline
     [\<lparr>narration = Some [20320, 22909, 65292, 19990, 30028, 65281, 20170, 22825, 22825, 27668,
                          24456, 22909, 12290],
       durationSeconds = Some 10\<rparr>]) =
     [\<lparr>cue_index = 1, startSeconds = 0, endSeconds = 10 * (6 / 13),
       cue_text = [20320, 22909, 65292, 19990, 30028, 65281]\<rparr>,
      \<lparr>cue_index = 2, startSeconds = 10 * (6 / 13), endSeconds = 10 * (6 / 13) + 10 * (7 / 13),
       cue_text = [20170, 22825, 22825, 27668, 24456, 22909, 12290]\<rparr>] \<and>
   (10 * (6 / 13) + 10 * (7 / 13) :: real) = 10 \<and>
   generate_srt
     \<lparr>scenes = Some
       [\<lparr>narration = Some [20320, 22909, 65292, 19990, 30028, 65281, 20170, 22825, 22825, 27668,
                            24456, 22909, 12290],
         durationSeconds = Some 10\<rparr>]\<rparr> =
     join_nl
       [of_ascii ''1'', of_ascii ''00:00:00,000 --> 00:00:04,615'',
        [20320, 22909, 65292, 19990, 30028, 65281], [],
        of_ascii ''2'', of_ascii ''00:00:04,615 --> 00:00:10,000'',
        [20170, 22825, 22825, 27668, 24456, 22909, 12290], []]"
proof -
  let ?narr = "[20320, 22909, 65292, 19990, 30028, 65281, 20170, 22825, 22825, 27668, 24456,
    22909, 12290] :: pystr"
  have s0: "split_loop 20 [20320, 22909, 65292] ([], [], 0) = ([], [20320, 22909, 65292], 3)"
    by (simp add: seg_eval)
  have s1: "split_loop 20 [20320, 22909, 65292, 19990, 30028, 65281] ([], [], 0) =
     ([[20320, 22909, 65292, 19990, 30028, 65281]], [], 0)"
    by (simp add: seg_eval)
  have s2: "split_narration ?narr 20 =
     [[20320, 22909, 65292, 19990, 30028, 65281],
      [20170, 22825, 22825, 27668, 24456, 22909, 12290]]"
    by (simp add: seg_eval)
  have ne: "strip ?narr \<noteq> []"
    by (simp add: strip_def is_space_def)
  have c: "cues (buildTimeline [\<lparr>narration = Some ?narr, durationSeconds = Some 10\<rparr>]) =
     [\<lparr>cue_index = 1, startSeconds = 0, endSeconds = 10 * (6 / 13),
       cue_text = [20320, 22909, 65292, 19990, 30028, 65281]\<rparr>,
      \<lparr>cue_index = 2, startSeconds = 10 * (6 / 13), endSeconds = 10 * (6 / 13) + 10 * (7 / 13),
       cue_text = [20170, 22825, 22825, 27668, 24456, 22909, 12290]\<rparr>]"
    by (simp add: tl_eval s2 ne)
  have g: "generate_srt \<lparr>scenes = Some [\<lparr>narration = Some ?narr, durationSeconds = Some 10\<rparr>]\<rparr> =
     join_nl
       [of_ascii ''1'', of_ascii ''00:00:00,000 --> 00:00:04,615'',
        [20320, 22909, 65292, 19990, 30028, 65281], [],
        of_ascii ''2'', of_ascii ''00:00:04,615 --> 00:00:10,000'',
        [20170, 22825, 22825, 27668, 24456, 22909, 12290], []]"
    unfolding generate_srt_render
    by (simp add: get_scenes_def c) (simp add: render_def cue_lines_def time_eval)
  have a: "(10 * (6 / 13) + 10 * (7 / 13) :: real) = 10" by simp
  from s0 s1 s2 c a g show ?thesis by (intro conjI)
qed

theorem scenario_two_cues_witness:
  "map length (split_narration
     [20320, 22909, 65292, 19990, 30028, 65281, 20170, 22825, 22825, 27668, 24456, 22909, 12290] 20)
   = [6, 7]"
  using scenario_two_cues by simp





section \<open>Properties of the serialized output\<close>

subsection \<open>Segments carry no surrounding whitespace\<close>

lemma last_dropWhile: "dropWhile P xs \<noteq> [] \<Longrightarrow> last (dropWhile P xs) = last xs"
  by (induction xs) (auto split: if_splits)

lemma trimmed_strip:
  assumes "strip x \<noteq> []"
  shows "trimmed (strip x)"
proof -
  let ?y = "dropWhile is_space x"
  let ?z = "dropWhile is_space (rev ?y)"
  from assms have z: "?z \<noteq> []" by (simp add: strip_def)
  have y: "?y \<noteq> []"
  proof
    assume e: "?y = []"
    have "?z = []" by (simp only: e rev.simps dropWhile.simps)
    with z show False by contradiction
  qed
  have "\<not> is_space (hd ?z)" using z by (rule hd_dropWhile)
  then have l: "\<not> is_space (last (strip x))"
    using z by (simp add: strip_def last_rev)
  have "last ?z = last (rev ?y)" using z by (rule last_dropWhile)
  also have "\<dots> = hd ?y" using y by (simp add: last_rev)
  finally have "hd (strip x) = hd ?y"
    using z by (simp add: strip_def hd_rev)
  moreover have "\<not> is_space (hd ?y)" using y by (rule hd_dropWhile)
  ultimately have h: "\<not> is_space (hd (strip x))" by simp
  from assms h l show ?thesis by (simp add: trimmed_def)
qed

lemma trimmed_close: "list_all trimmed segs \<Longrightarrow> list_all trimmed (close_segment segs cur)"
  by (simp add: close_segment_def Let_def trimmed_strip)

lemma trimmed_step:
  "list_all trimmed (fst st) \<Longrightarrow> list_all trimmed (fst (split_step m st ch))"
  by (cases st) (simp add: Let_def trimmed_close)

lemma trimmed_loop:
  "list_all trimmed (fst st) \<Longrightarrow> list_all trimmed (fst (split_loop m narr st))"
  by (rule split_loop_invariant [where P = "\<lambda>st. list_all trimmed (fst st)"])
     (simp_all add: trimmed_step)

lemma trimmed_append: "trimmed a \<Longrightarrow> trimmed b \<Longrightarrow> trimmed (a @ b)"
  by (simp add: trimmed_def)

lemma trimmed_finish:
  assumes "list_all trimmed segs"
  shows "list_all trimmed (finish (segs, cur, n))"
proof (cases "strip cur = []")
  case True
  with assms show ?thesis by (simp add: finish_cases)
next
  case False
  then have r: "trimmed (strip cur)" by (rule trimmed_strip)
  have butl: "list_all trimmed (butlast segs)"
    using assms by (auto simp: list_all_iff dest: in_set_butlastD)
  have "segs \<noteq> [] \<Longrightarrow> trimmed (last segs)"
    using assms by (auto simp: list_all_iff)
  then have mrg: "segs \<noteq> [] \<Longrightarrow> trimmed (last segs @ strip cur)"
    using r by (simp add: trimmed_append)
  from False assms r butl mrg show ?thesis by (simp add: finish_cases)
qed

lemma split_narration_trimmed: "list_all trimmed (split_narration narr m)"
proof -
  obtain segs cur n where st: "split_loop m narr ([], [], 0) = (segs, cur, n)"
    by (cases "split_loop m narr ([], [], 0)")
  have "list_all trimmed (fst (split_loop m narr ([], [], 0)))"
    by (rule trimmed_loop) simp
  with st have "list_all trimmed segs" by simp
  then have "list_all trimmed (finish (segs, cur, n))" by (rule trimmed_finish)
  with st show ?thesis by (simp add: split_narration_eq_finish)
qed

lemma scene_cues_trimmed: "list_all trimmed (map cue_text (scene_cues tln sc))"
  by (simp add: scene_cues_text split_narration_trimmed)

lemma timeline_from_trimmed:
  "list_all trimmed (map cue_text (cues tln)) \<Longrightarrow>
   list_all trimmed (map cue_text (cues (timeline_from tln ss)))"
proof (induction ss rule: rev_induct)
  case Nil
  then show ?case by (simp add: timeline_from_def)
next
  case (snoc sc ss)
  then show ?case
    using scene_cues_trimmed [of "timeline_from tln ss" sc]
    by (simp add: timeline_from_snoc timeline_step_cues)
qed

lemma buildTimeline_trimmed: "list_all trimmed (map cue_text (cues (buildTimeline ss)))"
  unfolding buildTimeline_def
  by (rule timeline_from_trimmed) (simp add: empty_timeline_def)

subsection \<open>Joining and splitting lines\<close>

lemma join_nl_Cons: "ls \<noteq> [] \<Longrightarrow> join_nl (l # ls) = l @ 10 # join_nl ls"
  by (cases ls) simp_all

lemma join_nl_snoc: "ls \<noteq> [] \<Longrightarrow> join_nl (ls @ [l]) = join_nl ls @ 10 # l"
proof (induction ls)
  case Nil
  then show ?case by simp
next
  case (Cons a ls)
  show ?case
  proof (cases "ls = []")
    case True
    then show ?thesis by simp
  next
    case False
    with Cons.IH show ?thesis by (simp add: join_nl_Cons)
  qed
qed

lemma split_nl_line: "10 \<notin> set l \<Longrightarrow> split_nl l = [l]"
  by (induction l) simp_all

lemma split_nl_append: "10 \<notin> set l \<Longrightarrow> split_nl (l @ 10 # rest) = l # split_nl rest"
  by (induction l) simp_all

lemma split_nl_join_nl:
  "ls \<noteq> [] \<Longrightarrow> list_all (\<lambda>l. 10 \<notin> set l) ls \<Longrightarrow> split_nl (join_nl ls) = ls"
proof (induction ls)
  case Nil
  then show ?case by simp
next
  case (Cons l ls)
  show ?case
  proof (cases "ls = []")
    case True
    with Cons.prems show ?thesis by (simp add: split_nl_line)
  next
    case False
    with Cons show ?thesis by (simp add: join_nl_Cons split_nl_append)
  qed
qed

subsection \<open>Index and timing lines hold no newline\<close>

lemma digits_range: "list_all (\<lambda>c. 48 \<le> c \<and> c \<le> 57) (digits n)"
proof (induction n rule: digits.induct)
  case (1 n)
  show ?case
  proof (cases "n < 10")
    case True
    then show ?thesis by (subst digits.simps) simp
  next
    case False
    have "n mod 10 < 10" by simp
    then have "48 + n mod 10 \<le> 57" by linarith
    with False 1 show ?thesis by (subst digits.simps) simp
  qed
qed

lemma digits_no_nl: "10 \<notin> set (digits n)"
  using digits_range [of n] by (auto simp: list_all_iff)

lemma zero_pad_no_nl: "10 \<notin> set (zero_pad w n)"
  by (simp add: zero_pad_def digits_no_nl)

lemma format_srt_time_no_nl: "10 \<notin> set (format_srt_time s)"
  by (simp add: format_srt_time_floor zero_pad_no_nl of_ascii_def)

lemma cue_lines_no_nl:
  "10 \<notin> set (cue_text c) \<Longrightarrow> list_all (\<lambda>l. 10 \<notin> set l) (cue_lines c)"
  by (simp add: cue_lines_def digits_no_nl format_srt_time_no_nl of_ascii_def)

lemma concat_cue_lines_no_nl:
  "list_all (\<lambda>c. 10 \<notin> set (cue_text c)) cs \<Longrightarrow>
   list_all (\<lambda>l. 10 \<notin> set l) (concat (map cue_lines cs))"
  by (induction cs) (simp_all add: cue_lines_no_nl)

lemma concat_cue_lines_last:
  assumes "cs \<noteq> []"
  shows "concat (map cue_lines cs) =
           (concat (map cue_lines (butlast cs)) @
            [digits (cue_index (last cs)),
             format_srt_time (startSeconds (last cs)) @ of_ascii '' --> '' @
               format_srt_time (endSeconds (last cs))]) @
           [cue_text (last cs)] @ [[]]"
proof -
  from assms have "cs = butlast cs @ [last cs]" by simp
  then have "concat (map cue_lines cs) = concat (map cue_lines (butlast cs @ [last cs]))"
    by simp
  then show ?thesis by (simp add: cue_lines_def)
qed

lemma render_end:
  assumes "cs \<noteq> []" and "trimmed (cue_text (last cs))"
  shows "last (render cs) = 10" and "\<not> is_space (last (butlast (render cs)))"
proof -
  let ?pre = "concat (map cue_lines (butlast cs)) @
            [digits (cue_index (last cs)),
             format_srt_time (startSeconds (last cs)) @ of_ascii '' --> '' @
               format_srt_time (endSeconds (last cs))]"
  let ?t = "cue_text (last cs)"
  have pre: "?pre \<noteq> []" by simp
  have "render cs = join_nl ((?pre @ [?t]) @ [[]])"
    unfolding render_def using concat_cue_lines_last [OF assms(1)] by simp
  also have "\<dots> = join_nl (?pre @ [?t]) @ [10]"
    by (subst join_nl_snoc) simp_all
  also have "join_nl (?pre @ [?t]) = join_nl ?pre @ 10 # ?t"
    using pre by (rule join_nl_snoc)
  finally have r: "render cs = (join_nl ?pre @ 10 # ?t) @ [10]" .
  from r show "last (render cs) = 10" by simp
  from assms(2) have t: "?t \<noteq> []" "\<not> is_space (last ?t)" by (simp_all add: trimmed_def)
  from r have "butlast (render cs) = join_nl ?pre @ 10 # ?t"
    by (simp only: butlast_snoc)
  with t show "\<not> is_space (last (butlast (render cs)))" by simp
qed

subsection \<open>The shape of the output\<close>

text \<open>
  Claim C9 (serialization), as it holds on the code. The output is the cues' blocks joined
  by newlines, in index order, each block being the index, the line
  \<^verbatim>\<open>start --> end\<close>, the segment's text as it is, and an empty line. When no segment holds
  a newline character, the lines of the output are exactly these, so each cue's text is
  one line. When there is a cue, the output ends with a non-whitespace character followed by
  one newline: the empty line of the last block is the last line. Without cues the output
  is empty.
\<close>

theorem srt_serialization:
  fixes data :: video_data
  defines "cs \<equiv> cues (buildTimeline (get_scenes data))"
  shows "generate_srt data = join_nl (concat (map cue_lines cs)) \<and>
         cue_lines c =
           [digits (cue_index c),
            format_srt_time (startSeconds c) @ of_ascii '' --> '' @ format_srt_time (endSeconds c),
            cue_text c, []] \<and>
         map cue_index cs = [1..<Suc (length cs)] \<and>
         (cs \<noteq> [] \<and> list_all (\<lambda>c. 10 \<notin> set (cue_text c)) cs \<longrightarrow>
            split_nl (generate_srt data) = concat (map cue_lines cs)) \<and>
         (cs \<noteq> [] \<longrightarrow>
            last (generate_srt data) = 10 \<and> \<not> is_space (last (butlast (generate_srt data)))) \<and>
         (cs = [] \<longrightarrow> generate_srt data = [])"
proof -
  have g: "generate_srt data = join_nl (concat (map cue_lines cs))"
    by (simp add: generate_srt_render render_def cs_def)
  have idx: "map cue_index cs = [1..<Suc (length cs)]"
    unfolding cs_def by (rule buildTimeline_index)
  have lines: "cs \<noteq> [] \<and> list_all (\<lambda>c. 10 \<notin> set (cue_text c)) cs \<longrightarrow>
            split_nl (generate_srt data) = concat (map cue_lines cs)"
  proof
    assume a: "cs \<noteq> [] \<and> list_all (\<lambda>c. 10 \<notin> set (cue_text c)) cs"
    then have "concat (map cue_lines cs) \<noteq> []"
      by (cases cs) (simp_all add: cue_lines_def)
    moreover from a have "list_all (\<lambda>l. 10 \<notin> set l) (concat (map cue_lines cs))"
      by (intro concat_cue_lines_no_nl) simp
    ultimately show "split_nl (generate_srt data) = concat (map cue_lines cs)"
      unfolding g by (rule split_nl_join_nl)
  qed
  have tail: "cs \<noteq> [] \<longrightarrow>
            last (generate_srt data) = 10 \<and> \<not> is_space (last (butlast (generate_srt data)))"
  proof
    assume ne: "cs \<noteq> []"
    have "list_all trimmed (map cue_text cs)"
      unfolding cs_def by (rule buildTimeline_trimmed)
    with ne have "trimmed (cue_text (last cs))"
      by (simp add: list_all_iff)
    from render_end [OF ne this]
    show "last (generate_srt data) = 10 \<and> \<not> is_space (last (butlast (generate_srt data)))"
      by (simp add: g render_def)
  qed
  have none: "cs = [] \<longrightarrow> generate_srt data = []"
    by (simp add: g)
  from g idx lines tail none show ?thesis
    by (simp add: cue_lines_def)
qed

theorem srt_serialization_witness:
  "split_nl (generate_srt
     \<lparr>scenes = Some
        [\<lparr>narration = Some (of_ascii ''  ''), durationSeconds = Some 3\<rparr>,
         \<lparr>narration = Some (of_ascii ''Hi.''), durationSeconds = Some 2\<rparr>]\<rparr>) =
     [of_ascii ''1'', of_ascii ''00:00:03,000 --> 00:00:05,000'', of_ascii ''Hi.'', []] \<and>
   last (generate_srt
     \<lparr>scenes = Some
        [\<lparr>narration = Some (of_ascii ''  ''), durationSeconds = Some 3\<rparr>,
         \<lparr>narration = Some (of_ascii ''Hi.''), durationSeconds = Some 2\<rparr>]\<rparr>) = 10 \<and>
   generate_srt \<lparr>scenes = None\<rparr> = []"
proof -
  let ?data = "\<lparr>scenes = Some
        [\<lparr>narration = Some (of_ascii ''  ''), durationSeconds = Some 3\<rparr>,
         \<lparr>narration = Some (of_ascii ''Hi.''), durationSeconds = Some 2\<rparr>]\<rparr>"
  have sh: "split_narration (of_ascii ''Hi.'') 20 = [of_ascii ''Hi.'']"
    by (simp add: seg_eval)
  have nh: "strip (of_ascii ''Hi.'') \<noteq> []" and bl: "strip (of_ascii ''  '') = []"
    by (simp_all add: strip_def is_space_def of_ascii_def)
  have c: "cues (buildTimeline (get_scenes ?data)) =
     [\<lparr>cue_index = 1, startSeconds = 3, endSeconds = 5, cue_text = of_ascii ''Hi.''\<rparr>]"
    by (simp add: tl_eval bl nh sh) (simp add: of_ascii_def)
  have e: "cues (buildTimeline (get_scenes \<lparr>scenes = None\<rparr>)) = []"
    by (simp add: tl_eval)
  have l: "concat (map cue_lines
       [\<lparr>cue_index = 1, startSeconds = 3, endSeconds = 5, cue_text = of_ascii ''Hi.''\<rparr>]) =
     [of_ascii ''1'', of_ascii ''00:00:03,000 --> 00:00:05,000'', of_ascii ''Hi.'', []]"
    by (simp add: cue_lines_def time_eval)
  let ?cue = "\<lparr>cue_index = 1, startSeconds = 3, endSeconds = 5, cue_text = of_ascii ''Hi.''\<rparr>"
  have p1: "[?cue] \<noteq> []" by simp
  have p2: "list_all (\<lambda>c. 10 \<notin> set (cue_text c)) [?cue]" by (simp add: of_ascii_def)
  note full = srt_serialization [of ?data, unfolded c]
  note none = srt_serialization [of "\<lparr>scenes = None\<rparr>", unfolded e]
  from full p1 p2 have "split_nl (generate_srt ?data) = concat (map cue_lines [?cue])"
    by blast
  then have 1: "split_nl (generate_srt ?data) =
     [of_ascii ''1'', of_ascii ''00:00:03,000 --> 00:00:05,000'', of_ascii ''Hi.'', []]"
    by (simp only: l)
  from full p1 have 2: "last (generate_srt ?data) = 10" by blast
  from none have 3: "generate_srt \<lparr>scenes = None\<rparr> = []" by blast
  from 1 2 3 show ?thesis by (intro conjI)
qed

text \<open>
  A segment keeps the newlines inside the narration: the text of the single cue of
  \<^verbatim>\<open>"ab\ncd"\<close> takes two lines of the output.
\<close>

theorem newline_in_narration_counterexample:
  "cues (buildTimeline
     [\<lparr>narration = Some [97, 98, 10, 99, 100], durationSeconds = Some 5\<rparr>]) =
     [\<lparr>cue_index = 1, startSeconds = 0, endSeconds = 5, cue_text = [97, 98, 10, 99, 100]\<rparr>] \<and>
   split_nl (generate_srt
     \<lparr>scenes = Some [\<lparr>narration = Some [97, 98, 10, 99, 100], durationSeconds = Some 5\<rparr>]\<rparr>) =
     [of_ascii ''1'', of_ascii ''00:00:00,000 --> 00:00:05,000'', of_ascii ''ab'', of_ascii ''cd'', []]"
proof -
  have s: "split_narration [97, 98, 10, 99, 100] 20 = [[97, 98, 10, 99, 100]]"
    by (simp add: seg_eval)
  have ne: "strip [97, 98, 10, 99, 100] \<noteq> []"
    by (simp add: strip_def is_space_def)
  have c: "cues (buildTimeline
     [\<lparr>narration = Some [97, 98, 10, 99, 100], durationSeconds = Some 5\<rparr>]) =
     [\<lparr>cue_index = 1, startSeconds = 0, endSeconds = 5, cue_text = [97, 98, 10, 99, 100]\<rparr>]"
    by (simp add: tl_eval s ne)
  have g: "split_nl (generate_srt
     \<lparr>scenes = Some [\<lparr>narration = Some [97, 98, 10, 99, 100], durationSeconds = Some 5\<rparr>]\<rparr>) =
     [of_ascii ''1'', of_ascii ''00:00:00,000 --> 00:00:05,000'', of_ascii ''ab'', of_ascii ''cd'', []]"
    unfolding generate_srt_render
    by (simp add: get_scenes_def c) (simp add: render_def cue_lines_def time_eval)
  from c g show ?thesis by (intro conjI)
qed

end
